theory Spec2Isabelle
  imports
    Main
    "HOL-Library.Word"
    "HOL-Library.Char_ord"
    "HOL-Library.List_Lexorder"
begin

unbundle bit_operations_syntax

section \<open>WAL utilities: timeline history parsing and segment enumeration\<close>

text \<open>
  A shallow embedding of \<^verbatim>\<open>wal_utils/wal_utils.c\<close>: the history parser
  \<^verbatim>\<open>parseTimeLineHistory\<close> and the segment enumeration of
  \<^verbatim>\<open>build_wal_segment_list\<close>, from its sanity checks on. The function-manager
  glue in front of them (the checks of \<^verbatim>\<open>rsinfo\<close> and the set-up of the tuple
  store) is not part of the model: the model starts with an empty tuple store.
\<close>

subsection \<open>Data model\<close>

type_synonym TimeLineID = "32 word"
type_synonym XLogRecPtr = "64 word"
type_synonym XLogSegNo = "64 word"

definition InvalidXLogRecPtr :: XLogRecPtr where
  "InvalidXLogRecPtr = 0"

text \<open>
  \<^verbatim>\<open>TimeLineHistoryEntry\<close> has the fields \<^verbatim>\<open>tli\<close>, \<^verbatim>\<open>begin\<close> and
  \<^verbatim>\<open>end\<close>; the last two are keywords here, hence the suffix.
\<close>

record TimeLineHistoryEntry =
  tli :: TimeLineID
  begin_lsn :: XLogRecPtr
  end_lsn :: XLogRecPtr

text \<open>
  Every \<^verbatim>\<open>ereport(ERROR, ...)\<close> of the source is a constructor, named after the
  error kinds of the specification and carrying what the message prints. The last
  constructor is not an \<^verbatim>\<open>ereport\<close>: it is the read through a null pointer that
  \<^verbatim>\<open>llast(NIL)\<close> performs.
\<close>

datatype error =
    MissingTimelineId string
  | MissingSwitchPoint string
  | NonIncreasingTimeline string
  | OriginNewerThanTarget XLogRecPtr XLogRecPtr
  | OriginTimelineNewerThanTarget TimeLineID TimeLineID
  | HistoryTimelineNotOlderThanTarget TimeLineID TimeLineID
  | HistoryEndNewerThanTarget XLogRecPtr XLogRecPtr
  | OriginNotDirectParent
  | NullPointerDereference

subsection \<open>Characters and the C library\<close>

abbreviation NUL :: char where "NUL \<equiv> CHR 0x00"
abbreviation TAB :: char where "TAB \<equiv> CHR 0x09"
abbreviation NL :: char where "NL \<equiv> CHR 0x0A"

text \<open>\<^verbatim>\<open>isspace\<close> in the C locale.\<close>

definition isspace :: "char \<Rightarrow> bool" where
  "isspace c \<longleftrightarrow> c = CHR '' '' \<or> c = TAB \<or> c = NL \<or> c = CHR 0x0B \<or> c = CHR 0x0C \<or> c = CHR 0x0D"

definition isdigit :: "char \<Rightarrow> bool" where
  "isdigit c \<longleftrightarrow> CHR ''0'' \<le> c \<and> c \<le> CHR ''9''"

definition isxdigit :: "char \<Rightarrow> bool" where
  "isxdigit c \<longleftrightarrow> isdigit c \<or> (CHR ''a'' \<le> c \<and> c \<le> CHR ''f'') \<or> (CHR ''A'' \<le> c \<and> c \<le> CHR ''F'')"

definition digit_value :: "char \<Rightarrow> nat" where
  "digit_value c =
     (if isdigit c then of_char c - 48
      else if CHR ''a'' \<le> c \<and> c \<le> CHR ''f'' then of_char c - 87
      else of_char c - 55)"

definition number_value :: "nat \<Rightarrow> string \<Rightarrow> nat" where
  "number_value base ds = foldl (\<lambda>a c. base * a + digit_value c) 0 ds"

text \<open>
  What \<^verbatim>\<open>strtoul\<close> returns for a digit string of value \<open>v\<close> with or without a
  minus sign, \<^verbatim>\<open>unsigned long\<close> being 64 bits wide: \<^verbatim>\<open>ULONG_MAX\<close> when the
  value is out of range, the negation in the unsigned type for a minus sign.
\<close>

definition strtoul_result :: "bool \<Rightarrow> nat \<Rightarrow> 64 word" where
  "strtoul_result neg v =
     (if 2 ^ 64 \<le> v then - 1 else if neg then - word_of_nat v else word_of_nat v)"

definition scan_sign :: "string \<Rightarrow> bool \<times> string" where
  "scan_sign s =
     (case s of
        [] \<Rightarrow> (False, [])
      | c # r \<Rightarrow> if c = CHR ''-'' then (True, r) else if c = CHR ''+'' then (False, r) else (False, s))"

text \<open>
  The conversion \<^verbatim>\<open>%u\<close>: white space is skipped, then an optional sign and a
  non-empty run of decimal digits are read; the value is stored in an
  \<^verbatim>\<open>unsigned int\<close>. The result is the value and the rest of the input, or
  \<open>None\<close> for a matching failure.
\<close>

definition conv_u :: "string \<Rightarrow> (32 word \<times> string) option" where
  "conv_u s =
     (let (neg, s') = scan_sign (dropWhile isspace s);
          ds = takeWhile isdigit s'
      in if ds = [] then None
         else Some (ucast (strtoul_result neg (number_value 10 ds)), dropWhile isdigit s'))"

text \<open>
  The conversion \<^verbatim>\<open>%X\<close>: as \<^verbatim>\<open>%u\<close> with hexadecimal digits and an optional
  prefix \<^verbatim>\<open>0x\<close> or \<^verbatim>\<open>0X\<close>. After such a prefix the GNU C library accepts an empty
  run of digits, the zero of the prefix being the number read.
\<close>

definition conv_X :: "string \<Rightarrow> (32 word \<times> string) option" where
  "conv_X s =
     (let (neg, s') = scan_sign (dropWhile isspace s)
      in case s' of
           c # x # r \<Rightarrow>
             if c = CHR ''0'' \<and> (x = CHR ''x'' \<or> x = CHR ''X'')
             then Some (ucast (strtoul_result neg (number_value 16 (takeWhile isxdigit r))),
                        dropWhile isxdigit r)
             else if takeWhile isxdigit s' = [] then None
             else Some (ucast (strtoul_result neg (number_value 16 (takeWhile isxdigit s'))),
                        dropWhile isxdigit s')
         | _ \<Rightarrow>
             if takeWhile isxdigit s' = [] then None
             else Some (ucast (strtoul_result neg (number_value 16 (takeWhile isxdigit s'))),
                        dropWhile isxdigit s'))"

text \<open>
  The outcome of \<^verbatim>\<open>sscanf(fline, "%u\t%X/%X", &tli, &switchpoint_hi, &switchpoint_lo)\<close>:
  the variables assigned so far, and through \<open>nfields\<close> the value returned. The
  variables of the conversions that did not happen stay unassigned, so they are absent
  from the outcome.
\<close>

datatype scanned =
    ScanEOF
  | Scan0
  | Scan1 TimeLineID
  | Scan2 TimeLineID "32 word"
  | Scan3 TimeLineID "32 word" "32 word"

fun nfields :: "scanned \<Rightarrow> int" where
  "nfields ScanEOF = - 1"
| "nfields Scan0 = 0"
| "nfields (Scan1 _) = 1"
| "nfields (Scan2 _ _) = 2"
| "nfields (Scan3 _ _ _) = 3"

definition sscanf :: "string \<Rightarrow> scanned" where
  "sscanf fline =
     (if dropWhile isspace fline = [] then ScanEOF
      else case conv_u fline of
        None \<Rightarrow> Scan0
      | Some (t, r1) \<Rightarrow>
          (case conv_X (dropWhile isspace r1) of
             None \<Rightarrow> Scan1 t
           | Some (hi, r2) \<Rightarrow>
               (case r2 of
                  [] \<Rightarrow> Scan2 t hi
                | c # r3 \<Rightarrow>
                    if c = CHR ''/'' then
                      (case conv_X r3 of
                         None \<Rightarrow> Scan2 t hi
                       | Some (lo, _) \<Rightarrow> Scan3 t hi lo)
                    else Scan2 t hi)))"

subsection \<open>parseTimeLineHistory\<close>

text \<open>
  The buffer is a C string: it ends at the first \<^verbatim>\<open>NUL\<close>, which for a list of
  characters is the end of the list or a \<^verbatim>\<open>NUL\<close> in it.
\<close>

definition in_line :: "char \<Rightarrow> bool" where
  "in_line c \<longleftrightarrow> c \<noteq> NUL \<and> c \<noteq> NL"

definition at_NUL :: "string \<Rightarrow> bool" where
  "at_NUL s \<longleftrightarrow> (case s of [] \<Rightarrow> True | c # _ \<Rightarrow> c = NUL)"

text \<open>Lines 75 to 82: the line is skipped when it is blank or a comment.\<close>

definition skipped :: "string \<Rightarrow> bool" where
  "skipped fline \<longleftrightarrow> at_NUL (dropWhile isspace fline) \<or> hd (dropWhile isspace fline) = CHR ''#''"

text \<open>
  Lines 84 to 114, the body of the loop for a data line: the three checks, then the new
  entry, whose \<^verbatim>\<open>begin\<close> is \<^verbatim>\<open>prevend\<close>.
\<close>

definition data_line :: "string \<Rightarrow> TimeLineID \<Rightarrow> XLogRecPtr \<Rightarrow> error + TimeLineHistoryEntry" where
  "data_line fline lasttli prevend =
     (let sc = sscanf fline in
      if nfields sc < 1 then Inl (MissingTimelineId fline)
      else if nfields sc \<noteq> 3 then Inl (MissingSwitchPoint fline)
      else case sc of
        Scan3 t switchpoint_hi switchpoint_lo \<Rightarrow>
          if t \<le> lasttli then Inl (NonIncreasingTimeline fline)
          else Inr \<lparr>tli = t, begin_lsn = prevend,
                    end_lsn = push_bit 32 (ucast switchpoint_hi) OR ucast switchpoint_lo\<rparr>
      | _ \<Rightarrow> Inl (MissingSwitchPoint fline))"

lemma next_line_shorter:
  "\<not> at_NUL (dropWhile in_line s) \<Longrightarrow> length (tl (dropWhile in_line s)) < length s"
proof -
  assume "\<not> at_NUL (dropWhile in_line s)"
  then obtain c r where "dropWhile in_line s = c # r"
    by (cases "dropWhile in_line s") (auto simp: at_NUL_def)
  moreover have "length (dropWhile in_line s) \<le> length s"
    by (rule length_dropWhile_le)
  ultimately show ?thesis by simp
qed

function parse_loop ::
  "string \<Rightarrow> TimeLineID \<Rightarrow> XLogRecPtr \<Rightarrow> TimeLineHistoryEntry list
     \<Rightarrow> error + TimeLineHistoryEntry list" where
  "parse_loop bufptr lasttli prevend entries =
     (let fline = takeWhile in_line bufptr;
          rest = dropWhile in_line bufptr;
          lastline = at_NUL rest
      in if skipped fline then
           (if lastline then Inr entries else parse_loop (tl rest) lasttli prevend entries)
         else case data_line fline lasttli prevend of
           Inl e \<Rightarrow> Inl e
         | Inr entry \<Rightarrow>
             if lastline then Inr (entries @ [entry])
             else parse_loop (tl rest) (tli entry) (end_lsn entry) (entries @ [entry]))"
  by pat_completeness auto
termination
  by (relation "measure (\<lambda>(bufptr, _, _, _). length bufptr)") (auto simp del: length_tl simp: next_line_shorter)

declare parse_loop.simps [simp del]

definition parseTimeLineHistory :: "string \<Rightarrow> error + TimeLineHistoryEntry list" where
  "parseTimeLineHistory buffer = parse_loop buffer 0 InvalidXLogRecPtr []"

subsection \<open>The lines of a buffer\<close>

text \<open>
  The lines that the loop of \<^verbatim>\<open>parseTimeLineHistory\<close> cuts the buffer into, the data
  lines among them, and what a data line says: the timeline and the switch point
  \<open>(hi << 32) | lo\<close>. An entry list is chained from a timeline and a position when the
  timelines increase from that timeline on and each entry begins where the one before it
  ends, the first one at that position.
\<close>

function buffer_lines :: "string \<Rightarrow> string list" where
  "buffer_lines bufptr =
     takeWhile in_line bufptr #
       (if at_NUL (dropWhile in_line bufptr) then []
        else buffer_lines (tl (dropWhile in_line bufptr)))"
  by pat_completeness auto
termination
  by (relation "measure length") (auto simp del: length_tl simp: next_line_shorter)

declare buffer_lines.simps [simp del]

definition data_lines :: "string \<Rightarrow> string list" where
  "data_lines buffer = filter (\<lambda>fline. \<not> skipped fline) (buffer_lines buffer)"

definition switchpoint :: "string \<Rightarrow> (TimeLineID \<times> XLogRecPtr) option" where
  "switchpoint fline =
     (case sscanf fline of
        Scan3 t switchpoint_hi switchpoint_lo \<Rightarrow>
          Some (t, push_bit 32 (ucast switchpoint_hi) OR ucast switchpoint_lo)
      | _ \<Rightarrow> None)"

fun chained :: "TimeLineID \<Rightarrow> XLogRecPtr \<Rightarrow> TimeLineHistoryEntry list \<Rightarrow> bool" where
  "chained lasttli prevend [] \<longleftrightarrow> True"
| "chained lasttli prevend (entry # entries) \<longleftrightarrow>
     lasttli < tli entry \<and> begin_lsn entry = prevend \<and> chained (tli entry) (end_lsn entry) entries"

subsection \<open>The errors of the data lines\<close>

text \<open>
  The specification's account of the errors, to be compared with \<open>parse_loop\<close>: the
  data lines of a text are taken one after the other, \<open>previous\<close> is the timeline of the
  data line before, and for each line the three causes of error are tried in their
  order, on the fields that \<^verbatim>\<open>sscanf\<close> reads. \<open>None\<close> when every line is accepted.
\<close>

fun check_data_lines :: "TimeLineID \<Rightarrow> string list \<Rightarrow> error option" where
  "check_data_lines previous [] = None"
| "check_data_lines previous (fline # flines) =
     (if conv_u fline = None then Some (MissingTimelineId fline)
      else case sscanf fline of
        Scan3 t _ _ \<Rightarrow>
          if t \<le> previous then Some (NonIncreasingTimeline fline)
          else check_data_lines t flines
      | _ \<Rightarrow> Some (MissingSwitchPoint fline))"

text \<open>
  The specification's words for the first cause: the first field of the line, that is
  the characters up to the next white space, is an unsigned integer, a non-empty run of
  decimal digits.
\<close>

definition first_field :: "string \<Rightarrow> string" where
  "first_field fline = takeWhile (\<lambda>c. \<not> isspace c) (dropWhile isspace fline)"

definition unsigned_integer :: "string \<Rightarrow> bool" where
  "unsigned_integer s \<longleftrightarrow> s \<noteq> [] \<and> list_all isdigit s"

subsection \<open>Segment numbers and segment file names\<close>

text \<open>
  \<^verbatim>\<open>XLOG_SEG_SIZE\<close> is a constant of the PostgreSQL build (\<^verbatim>\<open>pg_config.h\<close>), a
  power of two between 1 MB and 1 GB, 16 MB by default. It is a parameter here.
\<close>

definition valid_seg_size :: "64 word \<Rightarrow> bool" where
  "valid_seg_size XLOG_SEG_SIZE \<longleftrightarrow> XLOG_SEG_SIZE \<in> (\<lambda>k. 2 ^ k) ` {20 .. 30 :: nat}"

text \<open>
  The macros of \<^verbatim>\<open>access/xlog_internal.h\<close> that the source uses, as PostgreSQL
  defines them for a build-time segment size:
  \<^verbatim>\<open>
  #define XLogSegSize             ((uint32) XLOG_SEG_SIZE)
  #define XLogSegmentsPerXLogId   (UINT64CONST(0x100000000) / XLOG_SEG_SIZE)
  #define XLByteToPrevSeg(xlrp, logSegNo)  logSegNo = ((xlrp) - 1) / XLogSegSize
  #define XLogFileName(fname, tli, logSegNo)
      snprintf(fname, MAXFNAMELEN, "%08X%08X%08X", tli,
               (uint32) ((logSegNo) / XLogSegmentsPerXLogId),
               (uint32) ((logSegNo) % XLogSegmentsPerXLogId))
  #define XLogFromFileName(fname, tli, logSegNo)
      sscanf(fname, "%08X%08X%08X", tli, &log, &seg);
      *logSegNo = (uint64) log * XLogSegmentsPerXLogId + seg
  \<close>
  The subtraction in \<^verbatim>\<open>XLByteToPrevSeg\<close> is one of \<^verbatim>\<open>uint64\<close>: it wraps at 0.
\<close>

definition XLogSegSize :: "64 word \<Rightarrow> 64 word" where
  "XLogSegSize XLOG_SEG_SIZE = ucast (ucast XLOG_SEG_SIZE :: 32 word)"

definition XLogSegmentsPerXLogId :: "64 word \<Rightarrow> 64 word" where
  "XLogSegmentsPerXLogId XLOG_SEG_SIZE = 0x100000000 div XLOG_SEG_SIZE"

definition XLByteToPrevSeg :: "64 word \<Rightarrow> XLogRecPtr \<Rightarrow> XLogSegNo" where
  "XLByteToPrevSeg XLOG_SEG_SIZE xlrp = (xlrp - 1) div XLogSegSize XLOG_SEG_SIZE"

definition hex_char :: "nat \<Rightarrow> char" where
  "hex_char d = ''0123456789ABCDEF'' ! d"

fun hex_digits :: "nat \<Rightarrow> nat \<Rightarrow> string" where
  "hex_digits 0 v = []"
| "hex_digits (Suc n) v = hex_digits n (v div 16) @ [hex_char (v mod 16)]"

text \<open>
  \<^verbatim>\<open>%08X\<close> of a 32-bit value: upper-case hexadecimal digits, padded with zeros to
  eight, and never more than eight.
\<close>

definition printf_08X :: "32 word \<Rightarrow> string" where
  "printf_08X w = hex_digits 8 (unat w)"

definition XLogFileName :: "64 word \<Rightarrow> TimeLineID \<Rightarrow> XLogSegNo \<Rightarrow> string" where
  "XLogFileName XLOG_SEG_SIZE t logSegNo =
     printf_08X t
     @ printf_08X (ucast (logSegNo div XLogSegmentsPerXLogId XLOG_SEG_SIZE))
     @ printf_08X (ucast (logSegNo mod XLogSegmentsPerXLogId XLOG_SEG_SIZE))"



subsection \<open>build\_wal\_segment\_list\<close>

text \<open>
  \<^verbatim>\<open>llast(l)\<close> is \<^verbatim>\<open>lfirst(list_tail(l))\<close>, and \<^verbatim>\<open>list_tail(NIL)\<close> is
  \<^verbatim>\<open>NULL\<close>: \<open>None\<close> is the read through that null pointer.
\<close>

definition llast :: "'a list \<Rightarrow> 'a option" where
  "llast l = (if l = [] then None else Some (last l))"

text \<open>Lines 317 to 319, the test of the loop that looks for the origin.\<close>

definition origin_match :: "TimeLineID \<Rightarrow> XLogRecPtr \<Rightarrow> TimeLineHistoryEntry \<Rightarrow> bool" where
  "origin_match origin_tli origin_lsn history \<longleftrightarrow>
     begin_lsn history \<le> origin_lsn \<and> end_lsn history \<ge> origin_lsn \<and> tli history = origin_tli"

text \<open>
  Lines 352 and 353, and again 376 and 377: one segment is added and the position is
  rounded down to the beginning of its segment, in \<^verbatim>\<open>uint64\<close>.
\<close>

definition next_segment :: "64 word \<Rightarrow> XLogRecPtr \<Rightarrow> XLogRecPtr" where
  "next_segment XLOG_SEG_SIZE lsn =
     (let current_seg_lsn = lsn + XLOG_SEG_SIZE
      in current_seg_lsn - current_seg_lsn mod XLOG_SEG_SIZE)"

text \<open>The test of the inner loop, lines 363 and 364.\<close>

definition in_span :: "XLogRecPtr \<Rightarrow> TimeLineHistoryEntry \<Rightarrow> bool" where
  "in_span current_seg_lsn history \<longleftrightarrow>
     current_seg_lsn \<ge> begin_lsn history \<and> current_seg_lsn < end_lsn history"

text \<open>
  Lines 363 to 378, the inner loop for one history entry. It carries the position and
  the tuple store, and it need not end: \<open>None\<close> is the run that goes on for ever.
\<close>

partial_function (option) save_segments ::
  "64 word \<Rightarrow> TimeLineHistoryEntry \<Rightarrow> XLogRecPtr \<Rightarrow> string list
     \<Rightarrow> (XLogRecPtr \<times> string list) option" where
  "save_segments XLOG_SEG_SIZE history current_seg_lsn tupstore =
     (if in_span current_seg_lsn history
      then save_segments XLOG_SEG_SIZE history (next_segment XLOG_SEG_SIZE current_seg_lsn)
             (tupstore @ [XLogFileName XLOG_SEG_SIZE (tli history)
                            (XLByteToPrevSeg XLOG_SEG_SIZE current_seg_lsn)])
      else Some (current_seg_lsn, tupstore))"

declare save_segments.simps [code]

text \<open>Lines 356 to 379, the loop over the entries.\<close>

fun foreach_entry ::
  "64 word \<Rightarrow> TimeLineHistoryEntry list \<Rightarrow> XLogRecPtr \<Rightarrow> string list
     \<Rightarrow> (XLogRecPtr \<times> string list) option" where
  "foreach_entry XLOG_SEG_SIZE [] current_seg_lsn tupstore = Some (current_seg_lsn, tupstore)"
| "foreach_entry XLOG_SEG_SIZE (history # entries) current_seg_lsn tupstore =
     (case save_segments XLOG_SEG_SIZE history current_seg_lsn tupstore of
        None \<Rightarrow> None
      | Some (current_seg_lsn', tupstore') \<Rightarrow>
          foreach_entry XLOG_SEG_SIZE entries current_seg_lsn' tupstore')"

text \<open>
  The function from line 271 on. It returns the tuple store, or the error raised
  together with the tuple store at that moment; \<open>None\<close> when a loop does not end.
  After the loop of lines 313 to 324 has found the origin, \<^verbatim>\<open>history\<close> is the entry
  found, and the entry added for the target begins at the end of that one.
\<close>

definition build_wal_segment_list ::
  "64 word \<Rightarrow> TimeLineID \<Rightarrow> XLogRecPtr \<Rightarrow> TimeLineID \<Rightarrow> XLogRecPtr \<Rightarrow> string
     \<Rightarrow> ((error \<times> string list) + string list) option" where
  "build_wal_segment_list XLOG_SEG_SIZE origin_tli origin_lsn target_tli target_lsn history_buf =
     (let tupstore = [] in
      if origin_lsn > target_lsn then
        Some (Inl (OriginNewerThanTarget origin_lsn target_lsn, tupstore))
      else if origin_tli > target_tli then
        Some (Inl (OriginTimelineNewerThanTarget origin_tli target_tli, tupstore))
      else case parseTimeLineHistory history_buf of
        Inl e \<Rightarrow> Some (Inl (e, tupstore))
      | Inr entries \<Rightarrow>
          (case llast entries of
             None \<Rightarrow> Some (Inl (NullPointerDereference, tupstore))
           | Some history \<Rightarrow>
               if tli history \<ge> target_tli then
                 Some (Inl (HistoryTimelineNotOlderThanTarget (tli history) target_tli, tupstore))
               else if end_lsn history > target_lsn then
                 Some (Inl (HistoryEndNewerThanTarget (end_lsn history) target_lsn, tupstore))
               else case find (origin_match origin_tli origin_lsn) entries of
                 None \<Rightarrow> Some (Inl (OriginNotDirectParent, tupstore))
               | Some history \<Rightarrow>
                   (case foreach_entry XLOG_SEG_SIZE
                           (entries @ [\<lparr>tli = target_tli, begin_lsn = end_lsn history,
                                        end_lsn = target_lsn\<rparr>])
                           (next_segment XLOG_SEG_SIZE origin_lsn) tupstore of
                      None \<Rightarrow> None
                    | Some (current_seg_lsn, tupstore) \<Rightarrow>
                        Some (Inr (tupstore @ [XLogFileName XLOG_SEG_SIZE target_tli
                                                 (XLByteToPrevSeg XLOG_SEG_SIZE target_lsn)])))))"

subsection \<open>The specification's reading of the arithmetic\<close>

text \<open>
  The specification describes the segment number of a position as the quotient by the
  segment size, and the identifier as the timeline followed by the high and the low 32
  bits of the segment number. These two definitions follow its words; they are compared
  with the macros above.
\<close>

definition segment_sequence :: "64 word \<Rightarrow> XLogRecPtr \<Rightarrow> XLogSegNo" where
  "segment_sequence seg_size pos = pos div seg_size"

definition format_identifier :: "TimeLineID \<Rightarrow> XLogSegNo \<Rightarrow> string" where
  "format_identifier timeline seg_seq =
     printf_08X timeline @ printf_08X (ucast (drop_bit 32 seg_seq)) @ printf_08X (ucast seg_seq)"

subsection \<open>Outcomes and example inputs\<close>

definition succeeds :: "((error \<times> string list) + string list) option \<Rightarrow> bool" where
  "succeeds r \<longleftrightarrow> (case r of Some (Inr _) \<Rightarrow> True | _ \<Rightarrow> False)"

text \<open>The history of Example 2 of the specification, and a history with one switch.\<close>

definition example2 :: string where
  "example2 = ''1'' @ [TAB] @ ''0/3000000'' @ [NL] @ ''2'' @ [TAB] @ ''0/5000000'' @ [NL]"

definition one_switch :: string where
  "one_switch = ''1'' @ [TAB] @ ''0/3000000'' @ [NL]"

text \<open>A history whose only switch is just above the first 4 GB of the log.\<close>

definition switch_above_4GB :: string where
  "switch_above_4GB = ''1'' @ [TAB] @ ''1/1000000'' @ [NL]"

subsection \<open>Segment numbers per timeline\<close>


text \<open>
  A position is below the last segment when one more segment after it does not pass
  \<open>2 ^ 64\<close>. A history with its switch point in the last segment.
\<close>

definition below_last_segment :: "64 word \<Rightarrow> XLogRecPtr \<Rightarrow> bool" where
  "below_last_segment XLOG_SEG_SIZE lsn \<longleftrightarrow> unat lsn + unat XLOG_SEG_SIZE \<le> 2 ^ 64"



section \<open>Evaluation\<close>

lemma hex_digits_numeral:
  "hex_digits (numeral k) v = hex_digits (pred_numeral k) (v div 16) @ [hex_char (v mod 16)]"
  by (simp only: numeral_eq_Suc [of k] hex_digits.simps)

lemmas scan_defs =
  sscanf_def conv_u_def conv_X_def scan_sign_def isspace_def isxdigit_def strtoul_result_def
  number_value_def digit_value_def isdigit_def

lemmas parse_defs =
  word_le_nat_alt word_less_nat_alt parseTimeLineHistory_def InvalidXLogRecPtr_def
  parse_loop.simps data_line_def skipped_def at_NUL_def in_line_def Let_def

lemmas name_defs =
  XLogFileName_def XLByteToPrevSeg_def XLogSegSize_def XLogSegmentsPerXLogId_def
  printf_08X_def hex_char_def hex_digits_numeral

lemmas build_defs =
  word_le_nat_alt word_less_nat_alt build_wal_segment_list_def llast_def origin_match_def
  next_segment_def in_span_def save_segments.simps

lemma parse_example2:
  "parseTimeLineHistory example2 =
     Inr [\<lparr>tli = 1, begin_lsn = 0, end_lsn = 0x3000000\<rparr>,
          \<lparr>tli = 2, begin_lsn = 0x3000000, end_lsn = 0x5000000\<rparr>]"
  by (simp add: example2_def parse_defs scan_defs)

lemma parse_one_switch:
  "parseTimeLineHistory one_switch = Inr [\<lparr>tli = 1, begin_lsn = 0, end_lsn = 0x3000000\<rparr>]"
  by (simp add: one_switch_def parse_defs scan_defs)

lemma build_example2_target2:
  "build_wal_segment_list 0x1000000 1 0 2 0x5000000 example2 =
     Some (Inl (HistoryTimelineNotOlderThanTarget 2 2, []))"
  by (simp add: build_defs parse_example2)

lemma build_example2_target3:
  "build_wal_segment_list 0x1000000 1 0 3 0x5000000 example2 =
     Some (Inr [''000000010000000000000000'', ''000000010000000000000001'',
                ''000000020000000000000002'', ''000000020000000000000003'',
                ''000000030000000000000004''])"
  by (simp add: build_defs parse_example2 name_defs)

lemma build_one_switch:
  "build_wal_segment_list 0x1000000 1 0 2 0x5000000 one_switch =
     Some (Inr [''000000010000000000000000'', ''000000010000000000000001'',
                ''000000020000000000000002'', ''000000020000000000000003'',
                ''000000020000000000000004''])"
  by (simp add: build_defs parse_one_switch name_defs)

lemma parse_switch_above_4GB:
  "parseTimeLineHistory switch_above_4GB =
     Inr [\<lparr>tli = 1, begin_lsn = 0, end_lsn = 0x101000000\<rparr>]"
  by (simp add: switch_above_4GB_def parse_defs scan_defs)

lemma build_switch_above_4GB:
  "build_wal_segment_list 0x1000000 1 0xFF000000 2 0x102000000 switch_above_4GB =
     Some (Inr [''0000000100000000000000FF'', ''000000020000000100000000'',
                ''000000020000000100000001''])"
  by (simp add: build_defs parse_switch_above_4GB name_defs)

section \<open>Segment arithmetic\<close>

lemma unat_pow2: "k < 64 \<Longrightarrow> unat (2 ^ k :: 64 word) = 2 ^ k"
proof -
  assume k: "k < 64"
  have "(2 ^ k :: 64 word) = word_of_nat (2 ^ k)" by simp
  then have "unat (2 ^ k :: 64 word) = 2 ^ k mod 2 ^ 64"
    by (simp only: unat_of_nat) simp
  moreover from k have "(2::nat) ^ k < 2 ^ 64"
    by (intro power_strict_increasing) simp_all
  ultimately show ?thesis by simp
qed

lemma valid_seg_size_unat:
  assumes "valid_seg_size seg"
  shows "0 < unat seg" and "unat seg < 2 ^ 32" and "unat seg dvd 2 ^ 32"
proof -
  from assms obtain k where k: "20 \<le> k" "k \<le> 30" "seg = 2 ^ k"
    by (auto simp: valid_seg_size_def)
  then have u: "unat seg = 2 ^ k"
    by (simp add: unat_pow2)
  show "0 < unat seg" by (simp add: u)
  from k have "(2::nat) ^ k < 2 ^ 32"
    by (intro power_strict_increasing) simp_all
  then show "unat seg < 2 ^ 32" by (simp add: u)
  show "unat seg dvd 2 ^ 32"
    unfolding u using k by (intro le_imp_power_dvd) simp
qed

lemma valid_seg_size_nonzero: "valid_seg_size seg \<Longrightarrow> seg \<noteq> 0"
  using valid_seg_size_unat(1) [of seg] by (auto simp: unat_gt_0)

lemma XLogSegSize_valid: "valid_seg_size seg \<Longrightarrow> XLogSegSize seg = seg"
proof -
  assume "valid_seg_size seg"
  then have "unat seg < 2 ^ 32" by (rule valid_seg_size_unat)
  then have "unat (ucast (ucast seg :: 32 word) :: 64 word) = unat seg"
    by (simp add: unsigned_ucast_eq unsigned_take_bit_eq take_bit_nat_eq_self)
  then show ?thesis
    by (simp add: XLogSegSize_def word_unat_eq_iff)
qed

lemma nat_prev_div_inside:
  assumes "0 < d" "n mod d \<noteq> 0"
  shows "(n - Suc 0) div d = n div (d::nat)"
proof (rule div_nat_eqI)
  have "d * (n div d) + n mod d = n" by simp
  with assms show "d * (n div d) \<le> n - Suc 0" by linarith
  have "n < d * Suc (n div d)" using assms(1) by (simp add: dividend_less_times_div)
  then show "n - Suc 0 < d * Suc (n div d)" by linarith
qed

lemma nat_prev_div_boundary:
  assumes "0 < d" "n mod d = 0" "0 < n"
  shows "(n - Suc 0) div d = n div (d::nat) - Suc 0"
proof (rule div_nat_eqI)
  from assms have n: "d * (n div d) = n" by auto
  with assms have "0 < n div d" by (cases "n div d") auto
  then obtain p where p: "n div d = Suc p" by (cases "n div d") auto
  from n p have "n = d * p + d" by simp
  with assms(1) show "d * (n div d - Suc 0) \<le> n - Suc 0" by (simp add: p)
  from n p assms show "n - Suc 0 < d * Suc (n div d - Suc 0)" by simp
qed

lemma XLByteToPrevSeg_inside:
  assumes "valid_seg_size seg" "lsn mod seg \<noteq> 0"
  shows "XLByteToPrevSeg seg lsn = lsn div seg"
proof -
  have d: "0 < unat seg" using assms(1) by (rule valid_seg_size_unat)
  from assms(2) have m: "unat lsn mod unat seg \<noteq> 0"
    by (simp add: word_unat_eq_iff unat_mod)
  then have "lsn \<noteq> 0" by auto
  then have "unat (lsn - 1) = unat lsn - 1" by (rule unat_minus_one)
  then have "unat ((lsn - 1) div seg) = unat (lsn div seg)"
    using d m by (simp add: unat_div nat_prev_div_inside)
  then show ?thesis
    by (simp add: XLByteToPrevSeg_def XLogSegSize_valid assms(1) word_unat_eq_iff)
qed

lemma XLByteToPrevSeg_boundary:
  assumes "valid_seg_size seg" "lsn mod seg = 0" "lsn \<noteq> 0"
  shows "XLByteToPrevSeg seg lsn = lsn div seg - 1"
proof -
  have d: "0 < unat seg" using assms(1) by (rule valid_seg_size_unat)
  from assms(2) have m: "unat lsn mod unat seg = 0"
    by (simp add: word_unat_eq_iff unat_mod)
  from assms(3) have n: "0 < unat lsn" by (simp add: unat_gt_0)
  from m n d have "unat seg \<le> unat lsn" by (auto simp: mod_eq_0_iff_dvd dvd_imp_le)
  then have "0 < unat lsn div unat seg" using d by (simp add: div_greater_zero_iff)
  then have "lsn div seg \<noteq> 0" by (simp add: word_unat_eq_iff unat_div)
  then have "unat (lsn div seg - 1) = unat lsn div unat seg - 1"
    by (simp add: unat_minus_one unat_div)
  moreover have "unat (lsn - 1) = unat lsn - 1" using assms(3) by (rule unat_minus_one)
  ultimately have "unat ((lsn - 1) div seg) = unat (lsn div seg - 1)"
    using d m n by (simp add: unat_div nat_prev_div_boundary)
  then show ?thesis
    by (simp add: XLByteToPrevSeg_def XLogSegSize_valid assms(1) word_unat_eq_iff)
qed

lemma next_segment_unat:
  assumes "valid_seg_size seg" "unat lsn + unat seg < 2 ^ 64"
  shows "unat (next_segment seg lsn) = (unat lsn div unat seg + 1) * unat seg"
proof -
  have d: "0 < unat seg" using assms(1) by (rule valid_seg_size_unat)
  from assms(2) have a: "unat (lsn + seg) = unat lsn + unat seg"
    by (simp add: unat_add_lem [THEN iffD1])
  have "(lsn + seg) mod seg \<le> lsn + seg"
    by (simp add: word_le_nat_alt unat_mod)
  then have "unat (lsn + seg - (lsn + seg) mod seg) = unat (lsn + seg) - unat ((lsn + seg) mod seg)"
    by (rule unat_sub)
  also have "\<dots> = unat lsn + unat seg - unat lsn mod unat seg"
    by (simp add: a unat_mod)
  also have "\<dots> = (unat lsn div unat seg + 1) * unat seg"
  proof -
    have "unat lsn div unat seg * unat seg + unat lsn mod unat seg = unat lsn" by simp
    then show ?thesis unfolding add_mult_distrib by linarith
  qed
  finally show ?thesis by (simp add: next_segment_def Let_def)
qed

lemma next_segment_after:
  assumes "valid_seg_size seg" "unat lsn + unat seg < 2 ^ 64"
  shows "lsn < next_segment seg lsn" and "next_segment seg lsn mod seg = 0"
    and "next_segment seg lsn - lsn \<le> seg" and "next_segment seg lsn \<noteq> 0"
    and "XLByteToPrevSeg seg (next_segment seg lsn) = lsn div seg"
proof -
  have d: "0 < unat seg" using assms(1) by (rule valid_seg_size_unat)
  note n = next_segment_unat [OF assms]
  have lt: "unat lsn < (unat lsn div unat seg + 1) * unat seg"
    using d by (simp add: dividend_less_div_times)
  then show less: "lsn < next_segment seg lsn"
    by (simp add: word_less_nat_alt n)
  show "next_segment seg lsn mod seg = 0"
    by (simp add: word_unat_eq_iff unat_mod n)
  have "unat (next_segment seg lsn - lsn) = unat (next_segment seg lsn) - unat lsn"
    using less by (intro unat_sub) simp
  moreover have "(unat lsn div unat seg + 1) * unat seg - unat lsn \<le> unat seg"
  proof -
    have "unat lsn div unat seg * unat seg + unat lsn mod unat seg = unat lsn" by simp
    moreover have "unat lsn mod unat seg < unat seg" using d by simp
    ultimately show ?thesis unfolding add_mult_distrib by linarith
  qed
  ultimately show "next_segment seg lsn - lsn \<le> seg"
    by (simp add: word_le_nat_alt n)
  from lt show nz: "next_segment seg lsn \<noteq> 0"
    by (auto simp: word_unat_eq_iff n)
  have "((unat lsn div unat seg + 1) * unat seg - Suc 0) div unat seg = unat lsn div unat seg"
  proof (rule div_nat_eqI)
    show "unat seg * (unat lsn div unat seg) \<le> (unat lsn div unat seg + 1) * unat seg - Suc 0"
      using d by (simp add: algebra_simps) 
    show "(unat lsn div unat seg + 1) * unat seg - Suc 0 < unat seg * Suc (unat lsn div unat seg)"
      using d by (simp add: algebra_simps)
  qed
  then have "unat ((next_segment seg lsn - 1) div seg) = unat (lsn div seg)"
    by (simp add: unat_div unat_minus_one [OF nz] n)
  then show "XLByteToPrevSeg seg (next_segment seg lsn) = lsn div seg"
    by (simp add: XLByteToPrevSeg_def XLogSegSize_valid assms(1) word_unat_eq_iff)
qed

lemma valid_16MB: "valid_seg_size 0x1000000"
proof -
  have "(0x1000000 :: 64 word) = 2 ^ 24" by simp
  moreover have "(24::nat) \<in> {20..30}" by simp
  ultimately show ?thesis unfolding valid_seg_size_def by (rule image_eqI)
qed

section \<open>Hexadecimal digits\<close>

lemma less_16_cases:
  "d < 16 \<Longrightarrow> d = 0 \<or> d = 1 \<or> d = 2 \<or> d = 3 \<or> d = 4 \<or> d = 5 \<or> d = 6 \<or> d = 7 \<or> d = 8 \<or> d = 9
     \<or> d = 10 \<or> d = 11 \<or> d = 12 \<or> d = 13 \<or> d = 14 \<or> d = (15::nat)"
  by arith

lemma of_char_hex_char:
  "d < 16 \<Longrightarrow> (of_char (hex_char d) :: nat) = (if d < 10 then 48 + d else 55 + d)"
  by (drule less_16_cases) (auto simp: hex_char_def)

lemma hex_char_less: "a < 16 \<Longrightarrow> b < 16 \<Longrightarrow> hex_char a < hex_char b \<longleftrightarrow> a < b"
  by (simp add: less_char_def of_char_hex_char)

lemma digit_value_hex_char: "d < 16 \<Longrightarrow> digit_value (hex_char d) = d"
  by (drule less_16_cases) (auto simp: hex_char_def digit_value_def isdigit_def)

lemma length_hex_digits [simp]: "length (hex_digits n v) = n"
  by (induction n arbitrary: v) simp_all

lemma number_value_snoc: "number_value b (ds @ [c]) = b * number_value b ds + digit_value c"
  by (simp add: number_value_def)

lemma number_value_hex_digits: "number_value 16 (hex_digits n v) = v mod 16 ^ n"
proof (induction n arbitrary: v)
  case 0
  then show ?case by (simp add: number_value_def)
next
  case (Suc n)
  have "v mod (16 * 16 ^ n) = 16 * (v div 16 mod 16 ^ n) + v mod 16"
    by (rule mod_mult2_eq)
  with Suc show ?case
    by (simp add: number_value_snoc digit_value_hex_char)
qed

lemma append_less_append:
  "length xs = length xs' \<Longrightarrow> xs @ ys < xs' @ ys' \<longleftrightarrow> xs < xs' \<or> xs = xs' \<and> ys < (ys' :: 'a :: linorder list)"
  by (induction xs xs' rule: list_induct2) auto

lemma nat_less_div_mod:
  assumes "0 < n"
  shows "a < b \<longleftrightarrow> a div n < b div n \<or> a div n = b div n \<and> a mod n < b mod (n::nat)"
proof -
  have dir: "x < y" if "x div n < y div n \<or> x div n = y div n \<and> x mod n < y mod n" for x y :: nat
  proof -
    from that show ?thesis
    proof
      assume "x div n < y div n"
      then show ?thesis using div_le_mono [of y x n] by (cases "x < y") auto
    next
      assume e: "x div n = y div n \<and> x mod n < y mod n"
      then have d: "y div n = x div n" and m: "x mod n < y mod n" by simp_all
      have "x = n * (y div n) + x mod n" unfolding d by simp
      also from m have "\<dots> < n * (y div n) + y mod n" by (rule add_strict_left_mono)
      also have "\<dots> = y" by simp
      finally show ?thesis .
    qed
  qed
  show ?thesis
  proof
    assume "a < b"
    show "a div n < b div n \<or> a div n = b div n \<and> a mod n < b mod n"
    proof (rule ccontr)
      assume "\<not> ?thesis"
      then have "b div n < a div n \<or> b div n = a div n \<and> b mod n < a mod n \<or>
          b div n = a div n \<and> b mod n = a mod n"
        by linarith
      then have "b \<le> a"
        using dir [of b a] by (metis div_mult_mod_eq less_or_eq_imp_le)
      with \<open>a < b\<close> show False by simp
    qed
  qed (rule dir)
qed

lemma hex_digits_less:
  "v < 16 ^ n \<Longrightarrow> w < 16 ^ n \<Longrightarrow> hex_digits n v < hex_digits n w \<longleftrightarrow> v < w"
proof (induction n arbitrary: v w)
  case 0
  then show ?case by simp
next
  case (Suc n)
  then have "v div 16 < 16 ^ n" "w div 16 < 16 ^ n"
    by (simp_all add: less_mult_imp_div_less mult.commute)
  note IH = Suc.IH [OF this]
  have inj: "hex_digits n (v div 16) = hex_digits n (w div 16) \<longleftrightarrow> v div 16 = w div 16"
    using IH Suc.IH [OF \<open>w div 16 < 16 ^ n\<close> \<open>v div 16 < 16 ^ n\<close>]
    by (metis less_irrefl linorder_neqE_nat)
  show ?case
    by (simp add: append_less_append IH inj hex_char_less nat_less_div_mod [of 16 v w])
qed

lemma hex_digits_inj:
  "v < 16 ^ n \<Longrightarrow> w < 16 ^ n \<Longrightarrow> hex_digits n v = hex_digits n w \<longleftrightarrow> v = w"
  by (metis mod_less number_value_hex_digits)

lemma length_printf_08X [simp]: "length (printf_08X w) = 8"
  by (simp add: printf_08X_def)

lemma unat_32_less: "unat (w :: 32 word) < 16 ^ 8"
  using unsigned_less [of w, where 'a = nat] by simp

lemma printf_08X_less: "printf_08X v < printf_08X w \<longleftrightarrow> v < w"
  by (simp add: printf_08X_def hex_digits_less [OF unat_32_less unat_32_less] word_less_nat_alt)

lemma printf_08X_inj: "printf_08X v = printf_08X w \<longleftrightarrow> v = w"
  by (simp add: printf_08X_def hex_digits_inj [OF unat_32_less unat_32_less] word_unat_eq_iff)


section \<open>The fields of a segment file name\<close>

lemma segments_per_id:
  assumes "valid_seg_size seg"
  shows "unat seg * unat (XLogSegmentsPerXLogId seg) = 2 ^ 32"
    and "0 < unat (XLogSegmentsPerXLogId seg)"
proof -
  note v = valid_seg_size_unat [OF assms]
  have n: "unat (XLogSegmentsPerXLogId seg) = 2 ^ 32 div unat seg"
    by (simp add: XLogSegmentsPerXLogId_def unat_div)
  from v(3) show *: "unat seg * unat (XLogSegmentsPerXLogId seg) = 2 ^ 32"
    unfolding n by (rule dvd_mult_div_cancel)
  show "0 < unat (XLogSegmentsPerXLogId seg)"
    by (rule ccontr) (use * in simp)
qed

lemma segno_high:
  assumes "valid_seg_size seg"
  shows "lsn div seg div XLogSegmentsPerXLogId seg = drop_bit 32 lsn"
proof -
  have "unat lsn div unat seg div unat (XLogSegmentsPerXLogId seg) = unat lsn div 2 ^ 32"
    by (simp only: div_mult2_eq [symmetric] segments_per_id(1) [OF assms])
  then show ?thesis
    by (simp add: word_unat_eq_iff unat_div unat_drop_bit_eq drop_bit_eq_div)
qed

lemma segno_low:
  assumes "valid_seg_size seg"
  shows "lsn div seg mod XLogSegmentsPerXLogId seg = take_bit 32 lsn div seg"
proof -
  let ?d = "unat seg" and ?n = "unat (XLogSegmentsPerXLogId seg)"
  have d: "0 < ?d" using assms by (rule valid_seg_size_unat)
  have "unat lsn mod (?d * ?n) = ?d * (unat lsn div ?d mod ?n) + unat lsn mod ?d"
    by (rule mod_mult2_eq)
  then have "unat lsn mod 2 ^ 32 div ?d = (?d * (unat lsn div ?d mod ?n) + unat lsn mod ?d) div ?d"
    by (simp only: segments_per_id(1) [OF assms])
  also have "\<dots> = unat lsn div ?d mod ?n"
    using d by simp
  finally show ?thesis
    by (simp add: word_unat_eq_iff unat_div unat_mod unsigned_take_bit_eq take_bit_eq_mod)
qed

lemma unat_ucast_32: "unat (x :: 64 word) < 2 ^ 32 \<Longrightarrow> unat (ucast x :: 32 word) = unat x"
  by (simp add: unsigned_ucast_eq take_bit_nat_eq_self)


lemma unat_drop_bit_32: "unat (drop_bit 32 (lsn :: 64 word)) = unat lsn div 2 ^ 32"
  by (subst unat_drop_bit_eq) (rule drop_bit_eq_div)

lemma unat_take_bit_32_div:
  "unat (take_bit 32 (lsn :: 64 word) div seg) = unat lsn mod 2 ^ 32 div unat seg"
proof -
  have "unat (take_bit 32 lsn) = take_bit 32 (unat lsn)" by (rule unsigned_take_bit_eq)
  also have "\<dots> = unat lsn mod 2 ^ 32" by (rule take_bit_eq_mod)
  finally show ?thesis by (simp only: unat_div)
qed

lemma high_less: "unat (drop_bit 32 (lsn :: 64 word)) < 2 ^ 32"
proof -
  have "unat lsn < 2 ^ 64" using unsigned_less [of lsn, where 'a = nat] by simp
  then have "unat lsn div 2 ^ 32 < 2 ^ 32"
    by (simp add: less_mult_imp_div_less)
  then show ?thesis by (simp only: unat_drop_bit_32)
qed

lemma low_less: "unat (take_bit 32 (lsn :: 64 word) div seg) < 2 ^ 32"
proof -
  have "unat lsn mod 2 ^ 32 div unat seg \<le> unat lsn mod 2 ^ 32" by (rule div_le_dividend)
  also have "\<dots> < 2 ^ 32" by simp
  finally show ?thesis by (simp only: unat_take_bit_32_div)
qed

lemma unat_high: "unat (ucast (drop_bit 32 (lsn :: 64 word)) :: 32 word) = unat lsn div 2 ^ 32"
  using unat_ucast_32 [OF high_less [of lsn]] by (simp only: unat_drop_bit_32)

lemma unat_low:
  "unat (ucast (take_bit 32 (lsn :: 64 word) div seg) :: 32 word) = unat lsn mod 2 ^ 32 div unat seg"
  using unat_ucast_32 [OF low_less [of lsn seg]] by (simp only: unat_take_bit_32_div)

lemma XLogFileName_fields:
  "valid_seg_size seg \<Longrightarrow>
   XLogFileName seg t (lsn div seg) =
     printf_08X t @ printf_08X (ucast (drop_bit 32 lsn)) @ printf_08X (ucast (take_bit 32 lsn div seg))"
  by (simp add: XLogFileName_def segno_high segno_low)

lemma segno_split:
  assumes "valid_seg_size seg"
  shows "unat (lsn div seg) div unat (XLogSegmentsPerXLogId seg) = unat lsn div 2 ^ 32"
    and "unat (lsn div seg) mod unat (XLogSegmentsPerXLogId seg) = unat lsn mod 2 ^ 32 div unat seg"
proof -
  have "unat (lsn div seg div XLogSegmentsPerXLogId seg) = unat (drop_bit 32 lsn)"
    by (simp only: segno_high [OF assms])
  then show "unat (lsn div seg) div unat (XLogSegmentsPerXLogId seg) = unat lsn div 2 ^ 32"
    by (simp only: unat_div unat_drop_bit_32)
  have "unat (lsn div seg mod XLogSegmentsPerXLogId seg) = unat (take_bit 32 lsn div seg)"
    by (simp only: segno_low [OF assms])
  then show "unat (lsn div seg) mod unat (XLogSegmentsPerXLogId seg) = unat lsn mod 2 ^ 32 div unat seg"
    by (simp only: unat_mod unat_take_bit_32_div)
qed

lemma XLogFileName_less:
  assumes "valid_seg_size seg"
  shows "XLogFileName seg t (lsn div seg) < XLogFileName seg t' (lsn' div seg) \<longleftrightarrow>
         t < t' \<or> t = t' \<and> lsn div seg < lsn' div seg"
proof -
  note n = segments_per_id(2) [OF assms]
  have "lsn div seg < lsn' div seg \<longleftrightarrow>
      unat lsn div 2 ^ 32 < unat lsn' div 2 ^ 32 \<or>
      unat lsn div 2 ^ 32 = unat lsn' div 2 ^ 32 \<and>
      unat lsn mod 2 ^ 32 div unat seg < unat lsn' mod 2 ^ 32 div unat seg"
    unfolding word_less_nat_alt
    by (subst nat_less_div_mod [OF n]) (simp only: segno_split [OF assms])
  then show ?thesis
    by (simp add: XLogFileName_fields [OF assms] append_less_append printf_08X_less
        printf_08X_inj word_less_nat_alt word_unat_eq_iff unat_high unat_low)
qed



text \<open>
  The naming that the specification describes keeps the order of the pairs of timeline and
  segment number as well, for all segment numbers.
\<close>

lemma unat_low_32: "unat (ucast (s :: 64 word) :: 32 word) = unat s mod 2 ^ 32"
proof -
  have "unat (ucast s :: 32 word) = take_bit 32 (unat s)"
    by (simp add: unsigned_ucast_eq)
  also have "\<dots> = unat s mod 2 ^ 32" by (rule take_bit_eq_mod)
  finally show ?thesis .
qed

lemma format_identifier_less:
  "format_identifier t s < format_identifier t' s' \<longleftrightarrow> t < t' \<or> t = t' \<and> s < s'"
proof -
  have "s < s' \<longleftrightarrow>
      unat s div 2 ^ 32 < unat s' div 2 ^ 32 \<or>
      unat s div 2 ^ 32 = unat s' div 2 ^ 32 \<and> unat s mod 2 ^ 32 < unat s' mod 2 ^ 32"
    unfolding word_less_nat_alt by (rule nat_less_div_mod) simp
  then show ?thesis
    by (simp only: format_identifier_def append_less_append length_printf_08X printf_08X_less
        printf_08X_inj word_less_nat_alt word_unat_eq_iff unat_high)
       (simp only: unat_low_32)
qed

section \<open>The shape of a successful call\<close>

lemma build_succeeds_D:
  assumes "build_wal_segment_list seg origin_tli origin_lsn target_tli target_lsn buf = Some (Inr xs)"
  obtains entries history current out where
    "origin_lsn \<le> target_lsn" "origin_tli \<le> target_tli"
    "parseTimeLineHistory buf = Inr entries" "entries \<noteq> []"
    "tli (last entries) < target_tli" "end_lsn (last entries) \<le> target_lsn"
    "find (origin_match origin_tli origin_lsn) entries = Some history"
    "foreach_entry seg
       (entries @ [\<lparr>tli = target_tli, begin_lsn = end_lsn history, end_lsn = target_lsn\<rparr>])
       (next_segment seg origin_lsn) [] = Some (current, out)"
    "xs = out @ [XLogFileName seg target_tli (XLByteToPrevSeg seg target_lsn)]"
  using assms unfolding build_wal_segment_list_def llast_def Let_def
  by (auto split: if_splits sum.splits option.splits prod.splits simp: not_less not_le)

lemma parse_comment_only: "parseTimeLineHistory (''# no switch yet'' @ [NL]) = Inr []"
  by (simp add: parse_defs isspace_def)

section \<open>Example 2 of the specification\<close>

text \<open>
  C4, as the claim states it, fails: the call of Example 2, with the target on timeline 2,
  does not succeed.
\<close>

theorem example2_call_does_not_succeed:
  "\<not> succeeds (build_wal_segment_list 0x1000000 1 0 2 0x5000000 example2)"
  by (simp add: build_example2_target2 succeeds_def)

text \<open>
  C4, amended. The text of Example 2 parses to two entries. The call with origin
  \<open>(1, 0)\<close> and target \<open>(2, 0x5000000)\<close> is refused by the check of lines 294 to
  299, the last timeline of the history being the target's timeline, and nothing is
  emitted. With the target on timeline 3 the call succeeds: it emits segments 0 and 1 on
  timeline 1, segments 2 and 3 on timeline 2, and at the end the segment that ends at the
  target position on timeline 3.
\<close>

theorem example2_outcome:
  "parseTimeLineHistory example2 =
     Inr [\<lparr>tli = 1, begin_lsn = 0, end_lsn = 0x3000000\<rparr>,
          \<lparr>tli = 2, begin_lsn = 0x3000000, end_lsn = 0x5000000\<rparr>]
   \<and> build_wal_segment_list 0x1000000 1 0 2 0x5000000 example2 =
     Some (Inl (HistoryTimelineNotOlderThanTarget 2 2, []))
   \<and> build_wal_segment_list 0x1000000 1 0 3 0x5000000 example2 =
     Some (Inr [''000000010000000000000000'', ''000000010000000000000001'',
                ''000000020000000000000002'', ''000000020000000000000003'',
                ''000000030000000000000004''])"
  by (simp only: parse_example2 build_example2_target2 build_example2_target3 simp_thms)

section \<open>Errors and the tuple store\<close>

text \<open>
  C9. Whenever the call ends with an error, the tuple store is empty at that moment: every
  check, the parse of the history included, comes before the first segment is stored.
\<close>

theorem errors_precede_emission:
  "build_wal_segment_list seg origin_tli origin_lsn target_tli target_lsn buf =
     Some (Inl (e, tupstore))
   \<Longrightarrow> tupstore = []"
  unfolding build_wal_segment_list_def Let_def
  by (auto split: if_splits sum.splits option.splits prod.splits)

theorem errors_precede_emission_witness:
  "build_wal_segment_list 0x1000000 1 0 2 0x5000000 example2 =
     Some (Inl (HistoryTimelineNotOlderThanTarget 2 2, []))
   \<and> ([] :: string list) = []"
  using errors_precede_emission [OF build_example2_target2] build_example2_target2
  by simp

section \<open>A history without entries\<close>

text \<open>
  C3 asks for a validation error, and no crash, when the history parses to no entry and
  the origin is not newer than the target. The source has no such check: line 293 takes
  the last entry of the list whatever its length, and for the empty list that is a read
  through a null pointer. Every such call ends there, with nothing stored.
\<close>

theorem empty_history_null_dereference:
  "parseTimeLineHistory buf = Inr [] \<Longrightarrow> origin_lsn \<le> target_lsn \<Longrightarrow> origin_tli \<le> target_tli \<Longrightarrow>
   build_wal_segment_list seg origin_tli origin_lsn target_tli target_lsn buf =
     Some (Inl (NullPointerDereference, []))"
  unfolding build_wal_segment_list_def llast_def Let_def
  by (auto simp: not_less)

theorem empty_history_null_dereference_witness:
  "parseTimeLineHistory (''# no switch yet'' @ [NL]) = Inr []
   \<and> (0 :: XLogRecPtr) \<le> 0 \<and> (1 :: TimeLineID) \<le> 2
   \<and> build_wal_segment_list 0x1000000 1 0 2 0 (''# no switch yet'' @ [NL]) =
       Some (Inl (NullPointerDereference, []))"
  using empty_history_null_dereference [OF parse_comment_only, of 0 0 1 2 "0x1000000"]
    parse_comment_only
  by simp

section \<open>The last identifier\<close>

text \<open>
  C2, as the claim states it, fails when the target position is on a segment boundary.
  With one switch at \<open>0/3000000\<close>, origin \<open>(1, 0)\<close> and target \<open>(2, 0x5000000)\<close>
  the last identifier names segment 4 of timeline 2, not segment
  \<open>0x5000000 div 0x1000000 = 5\<close>, in the source's naming and in the specification's.
\<close>

theorem final_identifier_on_boundary:
  "build_wal_segment_list 0x1000000 1 0 2 0x5000000 one_switch =
     Some (Inr [''000000010000000000000000'', ''000000010000000000000001'',
                ''000000020000000000000002'', ''000000020000000000000003'',
                ''000000020000000000000004''])
   \<and> ''000000020000000000000004'' \<noteq>
       XLogFileName 0x1000000 2 (segment_sequence 0x1000000 0x5000000)
   \<and> ''000000020000000000000004'' \<noteq>
       format_identifier 2 (segment_sequence 0x1000000 0x5000000)"
  by (simp add: build_one_switch segment_sequence_def format_identifier_def name_defs)

text \<open>
  C2, amended. A successful call returns what the loop over the entries has stored,
  followed by exactly one more identifier: the name, on the target timeline, of the
  segment that \<^verbatim>\<open>XLByteToPrevSeg\<close> gives for the target position. That segment is
  the one that contains the byte before the target position: it is
  \<open>target_lsn div seg_size\<close> when the target position is inside a segment, and one
  less when the target position is on a segment boundary other than 0.
\<close>

theorem final_identifier:
  assumes "build_wal_segment_list seg origin_tli origin_lsn target_tli target_lsn buf = Some (Inr xs)"
    and "valid_seg_size seg"
  shows "(\<exists>entries history current out.
            parseTimeLineHistory buf = Inr entries \<and>
            find (origin_match origin_tli origin_lsn) entries = Some history \<and>
            foreach_entry seg
              (entries @ [\<lparr>tli = target_tli, begin_lsn = end_lsn history, end_lsn = target_lsn\<rparr>])
              (next_segment seg origin_lsn) [] = Some (current, out) \<and>
            xs = out @ [XLogFileName seg target_tli (XLByteToPrevSeg seg target_lsn)]) \<and>
         (target_lsn mod seg \<noteq> 0 \<longrightarrow>
            XLByteToPrevSeg seg target_lsn = segment_sequence seg target_lsn) \<and>
         (target_lsn mod seg = 0 \<and> target_lsn \<noteq> 0 \<longrightarrow>
            XLByteToPrevSeg seg target_lsn = segment_sequence seg target_lsn - 1)"
proof -
  from assms(1) have "\<exists>entries history current out.
      parseTimeLineHistory buf = Inr entries \<and>
      find (origin_match origin_tli origin_lsn) entries = Some history \<and>
      foreach_entry seg
        (entries @ [\<lparr>tli = target_tli, begin_lsn = end_lsn history, end_lsn = target_lsn\<rparr>])
        (next_segment seg origin_lsn) [] = Some (current, out) \<and>
      xs = out @ [XLogFileName seg target_tli (XLByteToPrevSeg seg target_lsn)]"
    by (elim build_succeeds_D) blast
  then show ?thesis
    using assms(2)
    by (simp add: segment_sequence_def XLByteToPrevSeg_inside XLByteToPrevSeg_boundary)
qed

theorem final_identifier_witness:
  "build_wal_segment_list 0x1000000 1 0 2 0x5000000 one_switch =
     Some (Inr [''000000010000000000000000'', ''000000010000000000000001'',
                ''000000020000000000000002'', ''000000020000000000000003'',
                ''000000020000000000000004''])
   \<and> valid_seg_size 0x1000000
   \<and> XLogFileName 0x1000000 2 (XLByteToPrevSeg 0x1000000 0x5000000) = ''000000020000000000000004''
   \<and> XLByteToPrevSeg 0x1000000 0x5000000 = segment_sequence 0x1000000 0x5000000 - 1"
  using final_identifier [OF build_one_switch valid_16MB] build_one_switch valid_16MB
  by (simp add: segment_sequence_def name_defs)

section \<open>A trailing newline\<close>

lemma takeWhile_in_line_NL: "takeWhile in_line (buf @ [NL]) = takeWhile in_line buf"
  by (induction buf) (auto simp: in_line_def)

lemma dropWhile_in_line_NL: "dropWhile in_line (buf @ [NL]) = dropWhile in_line buf @ [NL]"
  by (induction buf) (auto simp: in_line_def)

lemma at_NUL_append_NL: "at_NUL (rest @ [NL]) \<longleftrightarrow> rest \<noteq> [] \<and> at_NUL rest"
  by (cases rest) (auto simp: at_NUL_def)

lemma skipped_Nil: "skipped []"
  by (simp add: skipped_def at_NUL_def)

lemma parse_loop_Nil: "parse_loop [] lasttli prevend entries = Inr entries"
  by (simp only: parse_loop.simps [of "[]"]) (simp add: skipped_Nil at_NUL_def)

lemma parse_loop_append_NL:
  "parse_loop (buf @ [NL]) lasttli prevend entries = parse_loop buf lasttli prevend entries"
proof (induction buf lasttli prevend entries rule: parse_loop.induct)
  case (1 bufptr lasttli prevend entries)
  let ?fline = "takeWhile in_line bufptr" and ?rest = "dropWhile in_line bufptr"
  show ?case
  proof (cases "?rest = []")
    case True
    then show ?thesis
      by (simp only: parse_loop.simps [of "bufptr @ [NL]"] parse_loop.simps [of bufptr])
         (simp add: takeWhile_in_line_NL dropWhile_in_line_NL at_NUL_def parse_loop_Nil
            Let_def del: dropWhile_eq_Nil_conv split: sum.splits)
  next
    case False
    show ?thesis
    proof (cases "at_NUL ?rest")
      case True
      with False show ?thesis
        by (simp only: parse_loop.simps [of "bufptr @ [NL]"] parse_loop.simps [of bufptr])
           (simp add: takeWhile_in_line_NL dropWhile_in_line_NL at_NUL_append_NL Let_def
              split: sum.splits)
    next
      case notlast: False
      show ?thesis
      proof (cases "skipped ?fline")
        case True
        with False notlast "1.IH"(1) [OF refl refl refl] show ?thesis
          by (simp only: parse_loop.simps [of "bufptr @ [NL]"] parse_loop.simps [of bufptr])
             (simp add: takeWhile_in_line_NL dropWhile_in_line_NL at_NUL_append_NL Let_def)
      next
        case dl: False
        show ?thesis
        proof (cases "data_line ?fline lasttli prevend")
          case (Inl e)
          with False notlast dl show ?thesis
            by (simp only: parse_loop.simps [of "bufptr @ [NL]"] parse_loop.simps [of bufptr])
               (simp add: takeWhile_in_line_NL dropWhile_in_line_NL at_NUL_append_NL Let_def)
        next
          case (Inr entry)
          with False notlast dl "1.IH"(2) [OF refl refl refl dl Inr] show ?thesis
            by (simp only: parse_loop.simps [of "bufptr @ [NL]"] parse_loop.simps [of bufptr])
               (simp add: takeWhile_in_line_NL dropWhile_in_line_NL at_NUL_append_NL Let_def)
        qed
      qed
    qed
  qed
qed

text \<open>
  C10. The parse does not see one more newline at the end of the text: the result, entries
  or error, is the same. The line after the last newline is empty, and an empty line is
  skipped.
\<close>

theorem trailing_newline: "parseTimeLineHistory (buf @ [NL]) = parseTimeLineHistory buf"
  by (simp add: parseTimeLineHistory_def parse_loop_append_NL)

section \<open>The entries of a parsed history\<close>

lemma data_line_Inr:
  assumes "data_line fline lasttli prevend = Inr entry"
  shows "lasttli < tli entry" and "begin_lsn entry = prevend"
    and "switchpoint fline = Some (tli entry, end_lsn entry)"
  using assms unfolding data_line_def switchpoint_def Let_def
  by (auto split: if_splits scanned.splits simp: not_le)

lemma chained_append:
  "chained lasttli prevend (entries @ [entry]) \<longleftrightarrow>
     chained lasttli prevend entries \<and>
     (if entries = [] then lasttli < tli entry \<and> begin_lsn entry = prevend
      else tli (last entries) < tli entry \<and> begin_lsn entry = end_lsn (last entries))"
  by (induction entries arbitrary: lasttli prevend) auto

lemma parse_loop_result:
  "parse_loop buf lasttli prevend acc = Inr entries \<Longrightarrow>
   \<exists>new. entries = acc @ new \<and> chained lasttli prevend new \<and>
         map (\<lambda>e. Some (tli e, end_lsn e)) new = map switchpoint (data_lines buf)"
proof (induction buf lasttli prevend acc arbitrary: entries rule: parse_loop.induct)
  case (1 bufptr lasttli prevend acc)
  let ?fline = "takeWhile in_line bufptr" and ?rest = "dropWhile in_line bufptr"
  note run = "1.prems" [unfolded parse_loop.simps [of bufptr] Let_def]
  have lines: "data_lines bufptr =
      (if skipped ?fline then [] else [?fline]) @ (if at_NUL ?rest then [] else data_lines (tl ?rest))"
    unfolding data_lines_def by (subst buffer_lines.simps) simp
  show ?case
  proof (cases "skipped ?fline")
    case True
    show ?thesis
    proof (cases "at_NUL ?rest")
      case last: True
      with True run lines show ?thesis by simp
    next
      case False
      with True run have "parse_loop (tl ?rest) lasttli prevend acc = Inr entries" by simp
      from "1.IH"(1) [OF refl refl refl True False this] True False lines
      show ?thesis by simp
    qed
  next
    case dl: False
    with run obtain entry where entry: "data_line ?fline lasttli prevend = Inr entry"
      by (cases "data_line ?fline lasttli prevend") auto
    note e = data_line_Inr [OF entry]
    show ?thesis
    proof (cases "at_NUL ?rest")
      case True
      with dl run entry have "entries = acc @ [entry]" by simp
      with True dl lines e show ?thesis by simp
    next
      case False
      with dl run entry
      have "parse_loop (tl ?rest) (tli entry) (end_lsn entry) (acc @ [entry]) = Inr entries"
        by simp
      from "1.IH"(2) [OF refl refl refl dl entry False this]
      obtain new where "entries = (acc @ [entry]) @ new" "chained (tli entry) (end_lsn entry) new"
        "map (\<lambda>e. Some (tli e, end_lsn e)) new = map switchpoint (data_lines (tl ?rest))"
        by blast
      with False dl lines e show ?thesis
        by (intro exI [of _ "entry # new"]) simp
    qed
  qed
qed

lemma chained_tli: "chained lasttli prevend entries \<Longrightarrow> e \<in> set entries \<Longrightarrow> lasttli < tli e"
  by (induction entries arbitrary: lasttli prevend) (auto intro: less_trans)

lemma chained_sorted: "chained lasttli prevend entries \<Longrightarrow> sorted_wrt (<) (map tli entries)"
  by (induction entries arbitrary: lasttli prevend) (auto dest: chained_tli)

lemma chained_hd: "chained lasttli prevend entries \<Longrightarrow> entries \<noteq> [] \<Longrightarrow> begin_lsn (hd entries) = prevend"
  by (cases entries) auto

lemma chained_nth:
  "chained lasttli prevend entries \<Longrightarrow> 0 < i \<Longrightarrow> i < length entries \<Longrightarrow>
   begin_lsn (entries ! i) = end_lsn (entries ! (i - 1))"
proof (induction entries arbitrary: lasttli prevend i)
  case Nil
  then show ?case by simp
next
  case (Cons e es)
  show ?case
  proof (cases "i = 1")
    case True
    with Cons.prems show ?thesis by (cases es) auto
  next
    case False
    with Cons.prems obtain j where j: "i = Suc j" "0 < j" "j < length es"
      by (cases i) auto
    with Cons.IH [of "tli e" "end_lsn e" j] Cons.prems(1) show ?thesis
      by (cases j) auto
  qed
qed


text \<open>
  C6. When the parse succeeds, the timelines of the entries increase strictly, the first
  entry begins at the invalid position 0, every later entry begins where the entry before
  it ends, and the entries are the data lines of the text in their order, each with the
  timeline of its line and, as its end, \<open>(hi << 32) | lo\<close> of the two hexadecimal
  groups of its line.
\<close>

theorem parsed_history_chain:
  assumes "parseTimeLineHistory buf = Inr entries"
  shows "sorted_wrt (<) (map tli entries) \<and>
         (entries \<noteq> [] \<longrightarrow> begin_lsn (hd entries) = InvalidXLogRecPtr) \<and>
         (\<forall>i. 0 < i \<and> i < length entries \<longrightarrow>
              begin_lsn (entries ! i) = end_lsn (entries ! (i - 1))) \<and>
         map (\<lambda>e. Some (tli e, end_lsn e)) entries = map switchpoint (data_lines buf)"
proof -
  from assms obtain new where "entries = [] @ new" "chained 0 InvalidXLogRecPtr new"
    "map (\<lambda>e. Some (tli e, end_lsn e)) new = map switchpoint (data_lines buf)"
    unfolding parseTimeLineHistory_def by (blast dest: parse_loop_result)
  then show ?thesis
    by (auto simp: chained_sorted chained_hd chained_nth)
qed

theorem parsed_history_chain_witness:
  "parseTimeLineHistory example2 =
     Inr [\<lparr>tli = 1, begin_lsn = 0, end_lsn = 0x3000000\<rparr>,
          \<lparr>tli = 2, begin_lsn = 0x3000000, end_lsn = 0x5000000\<rparr>]
   \<and> sorted_wrt (<) [1, 2 :: TimeLineID]
   \<and> map switchpoint (data_lines example2) = [Some (1, 0x3000000), Some (2, 0x5000000)]"
  using parsed_history_chain [OF parse_example2] parse_example2
  by simp

section \<open>The errors of a data line\<close>

lemma conv_u_blank: "dropWhile isspace fline = [] \<Longrightarrow> conv_u fline = None"
  by (simp add: conv_u_def scan_sign_def del: dropWhile_eq_Nil_conv)

lemma nfields_sscanf_less_1: "nfields (sscanf fline) < 1 \<longleftrightarrow> conv_u fline = None"
  by (auto simp: sscanf_def conv_u_blank split: option.splits list.splits simp del: dropWhile_eq_Nil_conv)

lemma nfields_sscanf_3: "nfields (sscanf fline) = 3 \<longleftrightarrow> (\<exists>t hi lo. sscanf fline = Scan3 t hi lo)"
  by (cases "sscanf fline") auto

lemma parse_timeline_0:
  "parseTimeLineHistory (''0'' @ [TAB] @ ''0/0'' @ [NL]) =
     Inl (NonIncreasingTimeline (''0'' @ [TAB] @ ''0/0''))"
  by (simp add: parse_defs scan_defs)

lemma parse_decreasing:
  "parseTimeLineHistory (''2'' @ [TAB] @ ''0/0'' @ [NL] @ ''1'' @ [TAB] @ ''0/0'' @ [NL]) =
     Inl (NonIncreasingTimeline (''1'' @ [TAB] @ ''0/0''))"
  by (simp add: parse_defs scan_defs)

lemma sscanf_Scan3_not_None: "sscanf fline = Scan3 t hi lo \<Longrightarrow> conv_u fline \<noteq> None"
  using nfields_sscanf_less_1 [of fline] by auto

lemma data_line_check:
  "(case data_line fline lasttli prevend of Inl e \<Rightarrow> Some e
    | Inr entry \<Rightarrow> check_data_lines (tli entry) flines) =
   check_data_lines lasttli (fline # flines)"
  using nfields_sscanf_less_1 [of fline]
  by (cases "sscanf fline") (auto simp: data_line_def Let_def)

lemma data_lines_unfold:
  "data_lines bufptr =
     (if skipped (takeWhile in_line bufptr) then [] else [takeWhile in_line bufptr]) @
     (if at_NUL (dropWhile in_line bufptr) then [] else data_lines (tl (dropWhile in_line bufptr)))"
  unfolding data_lines_def by (subst buffer_lines.simps) simp

lemma parse_loop_error:
  "parse_loop buf lasttli prevend acc = Inl e \<longleftrightarrow>
   check_data_lines lasttli (data_lines buf) = Some e"
proof (induction buf lasttli prevend acc rule: parse_loop.induct)
  case (1 bufptr lasttli prevend acc)
  let ?fline = "takeWhile in_line bufptr" and ?rest = "dropWhile in_line bufptr"
  note run = parse_loop.simps [of bufptr lasttli prevend acc, unfolded Let_def]
  note lines = data_lines_unfold [of bufptr]
  show ?case
  proof (cases "skipped ?fline")
    case True
    show ?thesis
    proof (cases "at_NUL ?rest")
      case last: True
      with True show ?thesis by (simp add: run lines)
    next
      case False
      with True "1.IH"(1) [OF refl refl refl True False] show ?thesis
        by (simp add: run lines)
    qed
  next
    case dl: False
    note step = data_line_check [where fline = ?fline and lasttli = lasttli and prevend = prevend, symmetric]
    show ?thesis
    proof (cases "data_line ?fline lasttli prevend")
      case (Inl e')
      with dl show ?thesis
        by (simp add: run lines step del: check_data_lines.simps(2))
    next
      case (Inr entry)
      show ?thesis
      proof (cases "at_NUL ?rest")
        case True
        with dl Inr show ?thesis
          by (simp add: run lines step del: check_data_lines.simps(2))
      next
        case False
        with dl Inr "1.IH"(2) [OF refl refl refl dl Inr False] show ?thesis
          by (simp add: run lines step del: check_data_lines.simps(2))
      qed
    qed
  qed
qed

lemma parse_error: 
  "parseTimeLineHistory buf = Inl e \<longleftrightarrow> check_data_lines 0 (data_lines buf) = Some e"
  by (simp add: parseTimeLineHistory_def parse_loop_error)

lemma check_data_lines_append:
  "check_data_lines p pre = None \<Longrightarrow>
   pre = [] \<and> q = p \<or> pre \<noteq> [] \<and> (\<exists>hi lo. sscanf (last pre) = Scan3 q hi lo) \<Longrightarrow>
   check_data_lines p (pre @ flines) = check_data_lines q flines"
proof (induction pre arbitrary: p)
  case Nil
  then show ?case by simp
next
  case (Cons l pre)
  from Cons.prems(1) obtain t hi lo where
    l: "conv_u l \<noteq> None" "sscanf l = Scan3 t hi lo" "\<not> t \<le> p" "check_data_lines t pre = None"
    by (cases "sscanf l") (auto split: if_splits)
  show ?case
  proof (cases "pre = []")
    case True
    with Cons.prems(2) l show ?thesis by auto
  next
    case False
    with Cons.prems(2) have "pre \<noteq> [] \<and> (\<exists>hi lo. sscanf (last pre) = Scan3 q hi lo)" by simp
    with Cons.IH [OF l(4)] l show ?thesis by auto
  qed
qed

lemma conv_u_reads:
  "conv_u fline \<noteq> None \<longleftrightarrow>
   (\<exists>ws sign d rest. fline = ws @ sign @ d # rest \<and> list_all isspace ws \<and>
      sign \<in> {[], ''+'', ''-''} \<and> isdigit d)"
proof
  assume c: "conv_u fline \<noteq> None"
  let ?s = "dropWhile isspace fline"
  have f: "fline = takeWhile isspace fline @ ?s" by simp
  have w: "list_all isspace (takeWhile isspace fline)"
    by (simp add: list_all_iff) (meson set_takeWhileD)
  obtain neg s' where s': "scan_sign ?s = (neg, s')" by (cases "scan_sign ?s")
  with c have "takeWhile isdigit s' \<noteq> []"
    by (auto simp: conv_u_def Let_def split: if_splits)
  then obtain d rest where d: "s' = d # rest" "isdigit d"
    by (cases s') (auto split: if_splits)
  from s' d have "?s = d # rest \<or> ?s = ''+'' @ d # rest \<or> ?s = ''-'' @ d # rest"
    by (auto simp: scan_sign_def split: list.splits if_splits)
  with f w d(2) show "\<exists>ws sign d rest. fline = ws @ sign @ d # rest \<and> list_all isspace ws \<and>
      sign \<in> {[], ''+'', ''-''} \<and> isdigit d"
    by (metis append_Nil insertCI)
next
  assume "\<exists>ws sign d rest. fline = ws @ sign @ d # rest \<and> list_all isspace ws \<and>
      sign \<in> {[], ''+'', ''-''} \<and> isdigit d"
  then obtain ws sign d rest where *: "fline = ws @ sign @ d # rest" "list_all isspace ws"
    "sign \<in> {[], ''+'', ''-''}" "isdigit d"
    by blast
  from *(4) have nd: "\<not> isspace d" "d \<noteq> CHR ''+''" "d \<noteq> CHR ''-''"
    by (auto simp: isdigit_def isspace_def less_eq_char_def)
  have ns: "\<not> isspace (CHR ''+'')" "\<not> isspace (CHR ''-'')"
    by (simp_all add: isspace_def)
  from *(2,3) nd ns have "dropWhile isspace fline = sign @ d # rest"
    unfolding *(1) by (auto simp: list_all_iff dropWhile_append3 dropWhile_append2)
  with *(3,4) nd show "conv_u fline \<noteq> None"
    by (auto simp: conv_u_def scan_sign_def Let_def)
qed

text \<open>
  C7, as the claim states it, fails for a first field that \<^verbatim>\<open>sscanf\<close> reads in part
  or with a sign. The first field \<open>-1\<close> is not an unsigned integer, and the line is
  accepted, on timeline \<open>4294967295\<close>. The first field \<open>0x1\<close> is not an unsigned
  integer, and the error is \<open>MissingSwitchPoint\<close>: \<^verbatim>\<open>%u\<close> reads the \<open>0\<close>, and
  the second conversion fails on the \<open>x\<close>.
\<close>

lemma ucast_minus_1: "(ucast (- 1 :: 64 word) :: 32 word) = 0xFFFFFFFF"
  by (simp add: unsigned_minus_1_eq_mask ucast_mask_eq mask_eq_exp_minus_1)

theorem signed_or_prefixed_first_field:
  "\<not> unsigned_integer (first_field (''-1'' @ [TAB] @ ''0/0''))
   \<and> parseTimeLineHistory (''-1'' @ [TAB] @ ''0/0'' @ [NL]) =
       Inr [\<lparr>tli = 0xFFFFFFFF, begin_lsn = 0, end_lsn = 0\<rparr>]
   \<and> \<not> unsigned_integer (first_field (''0x1'' @ [TAB] @ ''0/0''))
   \<and> parseTimeLineHistory (''0x1'' @ [TAB] @ ''0/0'' @ [NL]) =
       Inl (MissingSwitchPoint (''0x1'' @ [TAB] @ ''0/0''))"
  by (simp add: parse_defs scan_defs first_field_def unsigned_integer_def ucast_minus_1)

text \<open>
  C7, amended. The parse fails with the error of the first data line that is not
  accepted, the data lines being taken in their order and blank and comment lines not
  counting. For a data line whose earlier data lines are all accepted, with \<open>previous\<close>
  the timeline read on the data line before it, and 0 for the first data line: the parse
  fails with \<open>MissingTimelineId\<close> for this line when \<^verbatim>\<open>%u\<close> reads no number at its
  start; otherwise with \<open>MissingSwitchPoint\<close> when \<^verbatim>\<open>sscanf\<close> does not assign all
  three fields; otherwise with \<open>NonIncreasingTimeline\<close> when the timeline read is not
  above \<open>previous\<close>; otherwise the line is accepted and the parse goes on with the
  later lines, this line's timeline being their \<open>previous\<close>. The conversion \<^verbatim>\<open>%u\<close>
  reads a number exactly when the line begins, after optional white space, with an
  optional sign and a decimal digit. So a first data line on timeline 0 fails, and the
  text with timeline 2 followed by timeline 1 fails on its second line.
\<close>

theorem data_line_errors:
  "(parseTimeLineHistory buf = Inl e \<longleftrightarrow> check_data_lines 0 (data_lines buf) = Some e) \<and>
   (data_lines buf = pre @ fline # post \<and> check_data_lines 0 pre = None \<and>
    (pre = [] \<and> previous = 0 \<or>
     pre \<noteq> [] \<and> (\<exists>hi lo. sscanf (last pre) = Scan3 previous hi lo)) \<longrightarrow>
      (conv_u fline = None \<longrightarrow> parseTimeLineHistory buf = Inl (MissingTimelineId fline)) \<and>
      (conv_u fline \<noteq> None \<and> (\<nexists>t hi lo. sscanf fline = Scan3 t hi lo) \<longrightarrow>
         parseTimeLineHistory buf = Inl (MissingSwitchPoint fline)) \<and>
      (\<forall>t hi lo. sscanf fline = Scan3 t hi lo \<longrightarrow>
         (t \<le> previous \<longrightarrow> parseTimeLineHistory buf = Inl (NonIncreasingTimeline fline)) \<and>
         (previous < t \<longrightarrow>
            (\<forall>e'. parseTimeLineHistory buf = Inl e' \<longleftrightarrow> check_data_lines t post = Some e')))) \<and>
   (conv_u fline \<noteq> None \<longleftrightarrow>
      (\<exists>ws sign d rest. fline = ws @ sign @ d # rest \<and> list_all isspace ws \<and>
         sign \<in> {[], ''+'', ''-''} \<and> isdigit d)) \<and>
   parseTimeLineHistory (''0'' @ [TAB] @ ''0/0'' @ [NL]) =
     Inl (NonIncreasingTimeline (''0'' @ [TAB] @ ''0/0'')) \<and>
   parseTimeLineHistory (''2'' @ [TAB] @ ''0/0'' @ [NL] @ ''1'' @ [TAB] @ ''0/0'' @ [NL]) =
     Inl (NonIncreasingTimeline (''1'' @ [TAB] @ ''0/0''))"
proof (intro conjI impI)
  show "parseTimeLineHistory buf = Inl e \<longleftrightarrow> check_data_lines 0 (data_lines buf) = Some e"
    by (rule parse_error)
next
  assume a: "data_lines buf = pre @ fline # post \<and> check_data_lines 0 pre = None \<and>
    (pre = [] \<and> previous = 0 \<or>
     pre \<noteq> [] \<and> (\<exists>hi lo. sscanf (last pre) = Scan3 previous hi lo))"
  then have "check_data_lines 0 (pre @ fline # post) = check_data_lines previous (fline # post)"
    by (intro check_data_lines_append) auto
  with a have at_line: "parseTimeLineHistory buf = Inl x \<longleftrightarrow>
      check_data_lines previous (fline # post) = Some x" for x
    by (simp add: parse_error)
  {
    assume "conv_u fline = None"
    then show "parseTimeLineHistory buf = Inl (MissingTimelineId fline)"
      by (simp add: at_line)
  }
  {
    assume "conv_u fline \<noteq> None \<and> (\<nexists>t hi lo. sscanf fline = Scan3 t hi lo)"
    then show "parseTimeLineHistory buf = Inl (MissingSwitchPoint fline)"
      by (cases "sscanf fline") (auto simp: at_line)
  }
  show "\<forall>t hi lo. sscanf fline = Scan3 t hi lo \<longrightarrow>
         (t \<le> previous \<longrightarrow> parseTimeLineHistory buf = Inl (NonIncreasingTimeline fline)) \<and>
         (previous < t \<longrightarrow>
            (\<forall>e'. parseTimeLineHistory buf = Inl e' \<longleftrightarrow> check_data_lines t post = Some e'))"
    using sscanf_Scan3_not_None [of fline] by (auto simp: at_line simp flip: not_le)
next
  show "conv_u fline \<noteq> None \<longleftrightarrow>
      (\<exists>ws sign d rest. fline = ws @ sign @ d # rest \<and> list_all isspace ws \<and>
         sign \<in> {[], ''+'', ''-''} \<and> isdigit d)"
    by (rule conv_u_reads)
qed (fact parse_timeline_0 parse_decreasing)+

theorem data_line_errors_witness:
  "data_lines (''2'' @ [TAB] @ ''0/0'' @ [NL] @ ''1'' @ [TAB] @ ''0/0'' @ [NL]) =
     [''2'' @ [TAB] @ ''0/0''] @ (''1'' @ [TAB] @ ''0/0'') # []
   \<and> check_data_lines 0 [''2'' @ [TAB] @ ''0/0''] = None
   \<and> sscanf (''2'' @ [TAB] @ ''0/0'') = Scan3 2 0 0
   \<and> sscanf (''1'' @ [TAB] @ ''0/0'') = Scan3 1 0 0
   \<and> (1 :: TimeLineID) \<le> 2
   \<and> parseTimeLineHistory (''2'' @ [TAB] @ ''0/0'' @ [NL] @ ''1'' @ [TAB] @ ''0/0'' @ [NL]) =
       Inl (NonIncreasingTimeline (''1'' @ [TAB] @ ''0/0''))
   \<and> check_data_lines 0 (data_lines (''2'' @ [TAB] @ ''0/0'' @ [NL] @ ''1'' @ [TAB] @ ''0/0'' @ [NL])) =
       Some (NonIncreasingTimeline (''1'' @ [TAB] @ ''0/0''))"
proof -
  let ?l1 = "''2'' @ [TAB] @ ''0/0''" and ?l2 = "''1'' @ [TAB] @ ''0/0''"
  let ?buf = "''2'' @ [TAB] @ ''0/0'' @ [NL] @ ''1'' @ [TAB] @ ''0/0'' @ [NL]"
  have lines: "data_lines ?buf = [?l1] @ ?l2 # []"
    by (simp add: data_lines_def buffer_lines.simps skipped_def at_NUL_def in_line_def
        isspace_def)
  have s1: "sscanf ?l1 = Scan3 2 0 0" and s2: "sscanf ?l2 = Scan3 1 0 0"
    by (simp_all add: scan_defs)
  have c1: "conv_u ?l1 \<noteq> None"
    using s1 by (rule sscanf_Scan3_not_None)
  have accepted: "check_data_lines 0 [?l1] = None"
    using c1 s1 by (simp add: word_le_nat_alt)
  have le: "(1 :: TimeLineID) \<le> 2" by simp
  have before: "[?l1] = [] \<and> (2 :: TimeLineID) = 0 \<or>
      [?l1] \<noteq> [] \<and> (\<exists>hi lo. sscanf (last [?l1]) = Scan3 2 hi lo)"
    using s1 by simp
  note inst = data_line_errors
    [of ?buf "NonIncreasingTimeline ?l2" "[?l1]" ?l2 "[]" 2]
  from inst lines accepted before s2 le
  have "parseTimeLineHistory ?buf = Inl (NonIncreasingTimeline ?l2)"
    by blast
  moreover from inst this
  have "check_data_lines 0 (data_lines ?buf) = Some (NonIncreasingTimeline ?l2)"
    by blast
  ultimately show ?thesis
    using lines accepted s1 s2 le by (simp only: simp_thms)
qed

section \<open>The loops over the entries\<close>

lemma save_segments_outside:
  "\<not> in_span c h \<Longrightarrow> save_segments seg h c ts = Some (c, ts)"
  by (subst save_segments.simps) simp

lemma save_segments_inside:
  "in_span c h \<Longrightarrow>
   save_segments seg h c ts =
     save_segments seg h (next_segment seg c)
       (ts @ [XLogFileName seg (tli h) (XLByteToPrevSeg seg c)])"
  by (subst save_segments.simps) simp

lemma save_segments_extends_snd:
  "save_segments seg h c ts = Some r \<Longrightarrow> \<exists>ys. snd r = ts @ ys"
  by (erule save_segments.raw_induct [rotated]) (fastforce split: if_splits)

lemma save_segments_extends:
  "save_segments seg h c ts = Some (c', ts') \<Longrightarrow> \<exists>ys. ts' = ts @ ys"
  by (drule save_segments_extends_snd) simp

lemma foreach_entry_extends:
  "foreach_entry seg es c ts = Some (c', ts') \<Longrightarrow> \<exists>ys. ts' = ts @ ys"
proof (induction es arbitrary: c ts)
  case Nil
  then show ?case by simp
next
  case (Cons h es)
  then show ?case
    by (fastforce split: option.splits dest: save_segments_extends)
qed

lemma foreach_entry_first:
  assumes "find (in_span c) es = Some h"
    and "foreach_entry seg (es @ rest) c ts = Some (c', ts')"
  shows "\<exists>ys. ts' = ts @ XLogFileName seg (tli h) (XLByteToPrevSeg seg c) # ys"
  using assms
proof (induction es)
  case Nil
  then show ?case by simp
next
  case (Cons e es)
  show ?case
  proof (cases "in_span c e")
    case True
    with Cons.prems have h: "h = e" by simp
    from Cons.prems(2) True obtain c1 ts1 where
      s: "save_segments seg e (next_segment seg c)
            (ts @ [XLogFileName seg (tli e) (XLByteToPrevSeg seg c)]) = Some (c1, ts1)"
      and f: "foreach_entry seg (es @ rest) c1 ts1 = Some (c', ts')"
      by (auto simp: save_segments_inside split: option.splits)
    from save_segments_extends [OF s] foreach_entry_extends [OF f] h show ?thesis
      by auto
  next
    case False
    with Cons show ?thesis
      by (simp add: save_segments_outside)
  qed
qed

lemma in_span_no_wrap:
  "below_last_segment seg (end_lsn h) \<Longrightarrow> in_span c h \<Longrightarrow> unat c + unat seg < 2 ^ 64"
  by (simp add: below_last_segment_def in_span_def word_less_nat_alt)

lemma save_segments_terminates:
  assumes "valid_seg_size seg" "below_last_segment seg (end_lsn h)"
  shows "\<exists>r. save_segments seg h c ts = Some r"
proof (induction "unat (end_lsn h) - unat c" arbitrary: c ts rule: less_induct)
  case less
  show ?case
  proof (cases "in_span c h")
    case False
    then show ?thesis by (simp add: save_segments_outside)
  next
    case True
    have "unat c + unat seg < 2 ^ 64"
      using assms(2) True by (rule in_span_no_wrap)
    with assms(1) have "c < next_segment seg c"
      by (rule next_segment_after)
    moreover from True have "c < end_lsn h" by (simp add: in_span_def)
    ultimately have "unat (end_lsn h) - unat (next_segment seg c) < unat (end_lsn h) - unat c"
      by (simp add: word_less_nat_alt)
    from less [OF this] True show ?thesis
      by (simp add: save_segments_inside)
  qed
qed

lemma foreach_entry_terminates:
  assumes "valid_seg_size seg" "\<forall>h\<in>set es. below_last_segment seg (end_lsn h)"
  shows "\<exists>r. foreach_entry seg es c ts = Some r"
  using assms(2)
proof (induction es arbitrary: c ts)
  case Nil
  then show ?case by simp
next
  case (Cons h es)
  then obtain c1 ts1 where "save_segments seg h c ts = Some (c1, ts1)"
    using save_segments_terminates [OF assms(1), of h c ts] by auto
  with Cons show ?case by simp
qed

lemma build_returns:
  assumes "valid_seg_size seg" "parseTimeLineHistory buf = Inr entries"
    and "\<forall>h\<in>set entries. below_last_segment seg (end_lsn h)"
    and "below_last_segment seg target_lsn"
  shows "\<exists>r. build_wal_segment_list seg origin_tli origin_lsn target_tli target_lsn buf = Some r"
proof -
  have "foreach_entry seg
      (entries @ [\<lparr>tli = target_tli, begin_lsn = b, end_lsn = target_lsn\<rparr>]) c [] \<noteq> None"
    for b c
    using foreach_entry_terminates [OF assms(1),
      of "entries @ [\<lparr>tli = target_tli, begin_lsn = b, end_lsn = target_lsn\<rparr>]" c "[]"]
      assms(3,4)
    by auto
  note loop = this
  show ?thesis
    unfolding build_wal_segment_list_def Let_def
    by (auto simp: assms(2) loop split: option.splits)
qed








section \<open>The first identifier\<close>

text \<open>
  C1, as the claim states it, fails: with one switch at \<open>0/3000000\<close>, origin
  \<open>(1, 0)\<close> and target \<open>(2, 0x5000000)\<close>, the identifier of the origin's own segment,
  segment 0 of timeline 1, is the first one returned. The source's naming and the
  specification's agree on it.
\<close>

theorem origin_segment_is_emitted:
  "build_wal_segment_list 0x1000000 1 0 2 0x5000000 one_switch =
     Some (Inr [''000000010000000000000000'', ''000000010000000000000001'',
                ''000000020000000000000002'', ''000000020000000000000003'',
                ''000000020000000000000004''])
   \<and> format_identifier 1 (segment_sequence 0x1000000 0) = ''000000010000000000000000''
   \<and> XLogFileName 0x1000000 1 (segment_sequence 0x1000000 0) = ''000000010000000000000000''"
  by (simp add: build_one_switch segment_sequence_def format_identifier_def name_defs)

text \<open>
  C1, amended. The enumeration starts at the first segment boundary strictly after the
  origin position, and what it stores for a position is the segment that ends there
  (\<^verbatim>\<open>XLByteToPrevSeg\<close>). So when an entry of the history spans that first boundary,
  the first identifier returned has the origin's segment number
  \<open>origin_lsn div seg_size\<close>, on the timeline of the first such entry; when that
  timeline is the origin's, it is the origin's own segment, as the comment of lines 344 to
  348 says. The origin position is taken far enough from \<open>2 ^ 64\<close> for the first
  boundary not to wrap.
\<close>

theorem first_identifier:
  assumes "valid_seg_size seg"
    and "build_wal_segment_list seg origin_tli origin_lsn target_tli target_lsn buf = Some (Inr xs)"
    and "parseTimeLineHistory buf = Inr entries"
    and "unat origin_lsn + unat seg < 2 ^ 64"
    and "find (in_span (next_segment seg origin_lsn)) entries = Some history"
  shows "origin_lsn < next_segment seg origin_lsn \<and>
         next_segment seg origin_lsn mod seg = 0 \<and>
         next_segment seg origin_lsn - origin_lsn \<le> seg \<and>
         hd xs = XLogFileName seg (tli history) (segment_sequence seg origin_lsn) \<and>
         (tli history = origin_tli \<longrightarrow>
            XLogFileName seg origin_tli (segment_sequence seg origin_lsn) \<in> set xs)"
proof -
  note n = next_segment_after [OF assms(1,4)]
  from assms(2) show ?thesis
  proof (rule build_succeeds_D)
    fix es h c out
    assume "parseTimeLineHistory buf = Inr es"
      and "foreach_entry seg
             (es @ [\<lparr>tli = target_tli, begin_lsn = end_lsn h, end_lsn = target_lsn\<rparr>])
             (next_segment seg origin_lsn) [] = Some (c, out)"
      and xs: "xs = out @ [XLogFileName seg target_tli (XLByteToPrevSeg seg target_lsn)]"
    with assms(3) have
      run: "foreach_entry seg
              (entries @ [\<lparr>tli = target_tli, begin_lsn = end_lsn h, end_lsn = target_lsn\<rparr>])
              (next_segment seg origin_lsn) [] = Some (c, out)"
      by simp
    from foreach_entry_first [OF assms(5) run] xs
    have "hd xs = XLogFileName seg (tli history) (XLByteToPrevSeg seg (next_segment seg origin_lsn))"
      by auto
    then have hd: "hd xs = XLogFileName seg (tli history) (segment_sequence seg origin_lsn)"
      by (simp add: n segment_sequence_def)
    from xs have "xs \<noteq> []" by simp
    then have "hd xs \<in> set xs" by simp
    with hd n show ?thesis by auto
  qed
qed

theorem first_identifier_witness:
  "valid_seg_size 0x1000000
   \<and> build_wal_segment_list 0x1000000 1 0 2 0x5000000 one_switch =
     Some (Inr [''000000010000000000000000'', ''000000010000000000000001'',
                ''000000020000000000000002'', ''000000020000000000000003'',
                ''000000020000000000000004''])
   \<and> parseTimeLineHistory one_switch = Inr [\<lparr>tli = 1, begin_lsn = 0, end_lsn = 0x3000000\<rparr>]
   \<and> unat (0 :: XLogRecPtr) + unat (0x1000000 :: 64 word) < 2 ^ 64
   \<and> find (in_span (next_segment 0x1000000 0)) [\<lparr>tli = 1, begin_lsn = 0, end_lsn = 0x3000000\<rparr>] =
       Some \<lparr>tli = 1, begin_lsn = 0, end_lsn = 0x3000000\<rparr>
   \<and> ''000000010000000000000000'' = XLogFileName 0x1000000 1 (segment_sequence 0x1000000 0)"
proof -
  have nowrap: "unat (0 :: XLogRecPtr) + unat (0x1000000 :: 64 word) < 2 ^ 64"
    by simp
  have first: "find (in_span (next_segment 0x1000000 0)) [\<lparr>tli = 1, begin_lsn = 0, end_lsn = 0x3000000\<rparr>] =
      Some \<lparr>tli = 1, begin_lsn = 0, end_lsn = 0x3000000\<rparr>"
    by (simp add: in_span_def next_segment_def word_le_nat_alt word_less_nat_alt)
  from first_identifier [OF valid_16MB build_one_switch parse_one_switch nowrap first]
    valid_16MB build_one_switch parse_one_switch nowrap first
  show ?thesis by simp
qed

section \<open>The naming of segments\<close>

text \<open>
  C8, as the claim states it, fails from segment number 256 on, for 16 MB segments. A call
  that crosses the position \<open>1/0\<close> returns for segment \<open>0x100\<close> of timeline 2 the
  name \<open>00000002 00000001 00000000\<close>; the high and the low 32 bits of the segment
  number would give \<open>00000002 00000000 00000100\<close>.
\<close>

theorem file_name_of_segment_256:
  "build_wal_segment_list 0x1000000 1 0xFF000000 2 0x102000000 switch_above_4GB =
     Some (Inr [''0000000100000000000000FF'', ''000000020000000100000000'',
                ''000000020000000100000001''])
   \<and> XLogFileName 0x1000000 2 0x100 = ''000000020000000100000000''
   \<and> format_identifier 2 0x100 = ''000000020000000000000100''"
  by (simp add: build_switch_above_4GB format_identifier_def name_defs)

text \<open>
  C8, amended. For every timeline and every segment number of a 64-bit position, so for
  every one emitted, the identifier is the concatenation of three fields of eight
  upper-case hexadecimal digits: the timeline, the high 32 bits of the position (the
  segment number divided by the number of segments in 4 GB), and the low 32 bits of the
  position divided by the segment size (the segment number modulo the number of segments
  in 4 GB). The identifier has 24 characters, and the lexicographic order of identifiers
  is the order of the pairs of timeline and segment number.
\<close>

theorem segment_file_names:
  assumes "valid_seg_size seg"
  shows "XLogFileName seg t (lsn div seg) =
           printf_08X t @ printf_08X (ucast (drop_bit 32 lsn))
             @ printf_08X (ucast (take_bit 32 lsn div seg)) \<and>
         length (XLogFileName seg t (lsn div seg)) = 24 \<and>
         (XLogFileName seg t (lsn div seg) < XLogFileName seg t' (lsn' div seg) \<longleftrightarrow>
            t < t' \<or> t = t' \<and> lsn div seg < lsn' div seg)"
  using XLogFileName_fields [OF assms, of t lsn] XLogFileName_less [OF assms, of t lsn t' lsn']
  by (simp add: XLogFileName_def)

theorem segment_file_names_witness:
  "valid_seg_size 0x1000000
   \<and> XLogFileName 0x1000000 1 (0x2FFFFFF div 0x1000000) = ''000000010000000000000002''
   \<and> XLogFileName 0x1000000 1 (0x2FFFFFF div 0x1000000)
       < XLogFileName 0x1000000 1 (0x100000000 div 0x1000000)"
  using segment_file_names [OF valid_16MB, of 1 "0x2FFFFFF" 1 "0x100000000"] valid_16MB
  by (simp add: name_defs)

section \<open>Segment numbers in the order of emission\<close>







end
